theory Spec2Isabelle
  imports Complex_Main "HOL-Library.Word"
begin

unbundle bit_operations_syntax

section \<open>IEEE-754 binary floating point, as far as pack.cpp uses it\<close>

text \<open>
  A floating-point value is a finite rational, an infinity or a NaN.  The two zeros are
  identified: pack.cpp compares, rounds, casts and divides by nonzero literals only, so the
  sign of a zero never reaches a result.  Every operation computes the exact rational
  result and rounds it once to the format of its C++ type (round to nearest, ties to even,
  the default rounding mode), as g++ compiles pack.cpp for x86-64: float operations are
  carried out in binary32, double operations in binary64, and no multiplication is fused
  with an addition.
\<close>

datatype fp = Fin rat | PInf | NInf | NaN

record format =
  prec :: nat    \<comment> \<open>number of significand bits, the hidden bit included\<close>
  qmin :: int    \<comment> \<open>exponent of the smallest quantum (the subnormal spacing)\<close>
  qmax :: int    \<comment> \<open>exponent of the quantum of the largest binade\<close>

definition binary32 :: format where
  "binary32 = \<lparr>prec = 24, qmin = - 149, qmax = 104\<rparr>"

definition binary64 :: format where
  "binary64 = \<lparr>prec = 53, qmin = - 1074, qmax = 971\<rparr>"

text \<open>
  \<open>ilog2 q\<close> is the binade of a positive rational, found by halving or doubling:
  \<open>2 powi ilog2 q \<le> q < 2 powi (ilog2 q + 1)\<close>.
\<close>

function ilog2 :: "rat \<Rightarrow> int" where
  "ilog2 q = (if q \<le> 0 then 0 else if 2 \<le> q then ilog2 (q / 2) + 1
              else if q < 1 then ilog2 (q * 2) - 1 else 0)"
  by pat_completeness auto
termination
proof (relation "measure (\<lambda>q. nat (2 * \<lceil>1 / q\<rceil> + \<lfloor>q\<rfloor>))")
  show "wf (measure (\<lambda>q::rat. nat (2 * \<lceil>1 / q\<rceil> + \<lfloor>q\<rfloor>)))"
    by simp
next
  fix q :: rat
  assume a: "\<not> q \<le> 0" "2 \<le> q"
  have c1: "\<lceil>1 / q\<rceil> = 1" and c2: "\<lceil>1 / (q / 2)\<rceil> = 1"
    using a by (simp_all add: ceiling_eq_iff field_simps)
  have "q / 2 < of_int \<lfloor>q\<rfloor>"
    using a floor_correct [of q] by linarith
  then have lt: "\<lfloor>q / 2\<rfloor> < \<lfloor>q\<rfloor>"
    by (simp add: floor_less_iff)
  have "0 \<le> q / 2"
    using a by simp
  then have ge: "0 \<le> \<lfloor>q / 2\<rfloor>"
    by (simp only: zero_le_floor)
  have "nat (2 * 1 + \<lfloor>q / 2\<rfloor>) < nat (2 * 1 + \<lfloor>q\<rfloor>)"
    using lt ge by linarith
  then show "(q / 2, q) \<in> measure (\<lambda>q. nat (2 * \<lceil>1 / q\<rceil> + \<lfloor>q\<rfloor>))"
    by (simp only: in_measure c1 c2)
next
  fix q :: rat
  assume a: "\<not> q \<le> 0" "\<not> 2 \<le> q" "q < 1"
  have f0: "\<lfloor>q\<rfloor> = 0"
    using a by (simp add: floor_eq_iff)
  have "q * 2 < 2"
    using a by simp
  then have f1: "\<lfloor>q * 2\<rfloor> \<le> 1"
    by (simp add: floor_le_iff)
  have "1 < 1 / q"
    using a by (simp add: field_simps)
  then have "1 < \<lceil>1 / q\<rceil>"
    by (simp only: less_ceiling_iff of_int_1)
  then have two: "(2::rat) \<le> of_int \<lceil>1 / q\<rceil>"
    by (metis of_int_le_iff of_int_numeral zless_imp_add1_zle one_add_one)
  have "1 / (q * 2) = (1 / q) / 2"
    by simp
  also have "\<dots> \<le> of_int \<lceil>1 / q\<rceil> / 2"
    using le_of_int_ceiling [of "1 / q"] by (simp only: divide_le_cancel) simp
  also have "\<dots> \<le> of_int (\<lceil>1 / q\<rceil> - 1)"
    using two by simp
  finally have c: "\<lceil>1 / (q * 2)\<rceil> \<le> \<lceil>1 / q\<rceil> - 1"
    by (simp only: ceiling_le_iff)
  have "0 < 1 / (q * 2)"
    using a by simp
  then have p: "0 < \<lceil>1 / (q * 2)\<rceil>"
    by (simp only: less_ceiling_iff of_int_0)
  have "nat (2 * \<lceil>1 / (q * 2)\<rceil> + \<lfloor>q * 2\<rfloor>) < nat (2 * \<lceil>1 / q\<rceil> + \<lfloor>q\<rfloor>)"
    using c p f0 f1 by linarith
  then show "(q * 2, q) \<in> measure (\<lambda>q. nat (2 * \<lceil>1 / q\<rceil> + \<lfloor>q\<rfloor>))"
    by (simp only: in_measure)
qed

declare ilog2.simps [simp del]

text \<open>Round to the nearest integer, ties to the even one.\<close>

definition rne :: "rat \<Rightarrow> int" where
  "rne q = (let f = \<lfloor>q\<rfloor>; r = q - of_int f in
     if r < 1 / 2 then f else if 1 / 2 < r then f + 1 else if even f then f else f + 1)"

definition quantum :: "format \<Rightarrow> rat \<Rightarrow> int" where
  "quantum F q = max (ilog2 \<bar>q\<bar> - (int (prec F) - 1)) (qmin F)"

definition round_fin :: "format \<Rightarrow> rat \<Rightarrow> rat" where
  "round_fin F q =
     (if q = 0 then 0 else of_int (rne (q / 2 powi quantum F q)) * 2 powi quantum F q)"

definition largest :: "format \<Rightarrow> rat" where
  "largest F = (2 ^ prec F - 1) * 2 powi qmax F"

definition rnd :: "format \<Rightarrow> rat \<Rightarrow> fp" where
  "rnd F q = (let r = round_fin F q in
     if largest F < r then PInf else if r < - largest F then NInf else Fin r)"

fun fneg :: "fp \<Rightarrow> fp" where
  "fneg (Fin a) = Fin (- a)"
| "fneg PInf = NInf"
| "fneg NInf = PInf"
| "fneg NaN = NaN"

fun fabs :: "fp \<Rightarrow> fp" where
  "fabs (Fin a) = Fin \<bar>a\<bar>"
| "fabs PInf = PInf"
| "fabs NInf = PInf"
| "fabs NaN = NaN"

fun fadd :: "format \<Rightarrow> fp \<Rightarrow> fp \<Rightarrow> fp" where
  "fadd F (Fin a) (Fin b) = rnd F (a + b)"
| "fadd F NaN y = NaN"
| "fadd F x NaN = NaN"
| "fadd F PInf NInf = NaN"
| "fadd F NInf PInf = NaN"
| "fadd F PInf y = PInf"
| "fadd F NInf y = NInf"
| "fadd F (Fin a) y = y"

definition fsub :: "format \<Rightarrow> fp \<Rightarrow> fp \<Rightarrow> fp" where
  "fsub F x y = fadd F x (fneg y)"

definition inf_of_sign :: "rat \<Rightarrow> fp" where
  "inf_of_sign s = (if s = 0 then NaN else if 0 < s then PInf else NInf)"

fun sign_of :: "fp \<Rightarrow> rat" where
  "sign_of (Fin a) = sgn a"
| "sign_of PInf = 1"
| "sign_of NInf = - 1"
| "sign_of NaN = 0"

fun fmul :: "format \<Rightarrow> fp \<Rightarrow> fp \<Rightarrow> fp" where
  "fmul F (Fin a) (Fin b) = rnd F (a * b)"
| "fmul F NaN y = NaN"
| "fmul F x NaN = NaN"
| "fmul F x y = inf_of_sign (sign_of x * sign_of y)"

text \<open>
  Division.  pack.cpp divides by the literals 65535.0f and 32767.0f only; for a zero
  divisor the model takes the zero as positive.
\<close>

fun fdiv :: "format \<Rightarrow> fp \<Rightarrow> fp \<Rightarrow> fp" where
  "fdiv F (Fin a) (Fin b) = (if b = 0 then inf_of_sign (sgn a) else rnd F (a / b))"
| "fdiv F NaN y = NaN"
| "fdiv F x NaN = NaN"
| "fdiv F (Fin a) y = Fin 0"
| "fdiv F x (Fin b) = inf_of_sign (sign_of x * (if b < 0 then - 1 else 1))"
| "fdiv F x y = NaN"

text \<open>The comparison \<open><\<close>: false as soon as one side is a NaN.\<close>

fun flt :: "fp \<Rightarrow> fp \<Rightarrow> bool" where
  "flt (Fin a) (Fin b) = (a < b)"
| "flt NaN y = False"
| "flt x NaN = False"
| "flt x PInf = (x \<noteq> PInf)"
| "flt NInf y = (y \<noteq> NInf)"
| "flt x y = False"

text \<open>The comparison \<open>\<le>\<close>, used to state that a component is non-negative.\<close>

fun fle :: "fp \<Rightarrow> fp \<Rightarrow> bool" where
  "fle (Fin a) (Fin b) = (a \<le> b)"
| "fle NaN y = False"
| "fle x NaN = False"
| "fle x PInf = True"
| "fle NInf y = True"
| "fle x y = False"

text \<open>The integer square root, two bits at a time.\<close>

function isqrt :: "int \<Rightarrow> int" where
  "isqrt n = (if n < 4 then (if n \<le> 0 then 0 else 1) else
     (let r = 2 * isqrt (n div 4) in if (r + 1) * (r + 1) \<le> n then r + 1 else r))"
  by pat_completeness auto
termination
  by (relation "measure nat") auto

declare isqrt.simps [simp del]

text \<open>
  The square root of a rational rounded to the nearest integer, ties to even: with
  \<open>s\<close> the integer part of the root, the root is below, at or above \<open>s + 1/2\<close> as the
  radicand is below, at or above \<open>(s + 1/2)\<^sup>2\<close>.
\<close>

definition rne_sqrt :: "rat \<Rightarrow> int" where
  "rne_sqrt r = (let s = isqrt \<lfloor>r\<rfloor>; h = (of_int s + 1 / 2) * (of_int s + 1 / 2) in
     if r < h then s else if h < r then s + 1 else if even s then s else s + 1)"

definition sqrt_fin :: "format \<Rightarrow> rat \<Rightarrow> rat" where
  "sqrt_fin F q = (if q = 0 then 0 else
     (let e = max (ilog2 q div 2 - (int (prec F) - 1)) (qmin F) in
        of_int (rne_sqrt (q / 2 powi (2 * e))) * 2 powi e))"

text \<open>std::sqrt, to which glm::sqrt forwards: correctly rounded, NaN below zero.\<close>

fun fsqrt :: "format \<Rightarrow> fp \<Rightarrow> fp" where
  "fsqrt F (Fin q) = (if q < 0 then NaN else Fin (sqrt_fin F q))"
| "fsqrt F PInf = PInf"
| "fsqrt F NInf = NaN"
| "fsqrt F NaN = NaN"

text \<open>std::round, to which glm::round forwards: to the nearest integer, halves away from zero.\<close>

definition round_half_away :: "rat \<Rightarrow> int" where
  "round_half_away q = (if 0 \<le> q then \<lfloor>q + 1 / 2\<rfloor> else - \<lfloor>- q + 1 / 2\<rfloor>)"

fun fround :: "fp \<Rightarrow> fp" where
  "fround (Fin q) = Fin (of_int (round_half_away q))"
| "fround x = x"

text \<open>
  The cast \<open>(uint32_t)f\<close> truncates towards zero; where the truncated value is not a
  uint32_t (and for infinities and NaN) the behaviour is undefined: \<open>None\<close>.
\<close>

definition trunc_zero :: "rat \<Rightarrow> int" where
  "trunc_zero q = (if 0 \<le> q then \<lfloor>q\<rfloor> else - \<lfloor>- q\<rfloor>)"

fun to_uint32 :: "fp \<Rightarrow> 32 word option" where
  "to_uint32 (Fin q) =
     (if 0 \<le> trunc_zero q \<and> trunc_zero q < 2 ^ 32 then Some (word_of_int (trunc_zero q)) else None)"
| "to_uint32 x = None"

text \<open>The conversions \<open>float(u)\<close> of a uint32_t, float to double, and double to float.\<close>

definition of_uint32 :: "32 word \<Rightarrow> fp" where
  "of_uint32 w = rnd binary32 (of_int (uint w))"

fun to_double :: "fp \<Rightarrow> fp" where
  "to_double (Fin q) = rnd binary64 q"
| "to_double x = x"

fun to_float :: "fp \<Rightarrow> fp" where
  "to_float (Fin q) = rnd binary32 q"
| "to_float x = x"

section \<open>pack.cpp\<close>

text \<open>glm::vec3: three floats.  The fields x, y, z are named vx, vy, vz here.\<close>

record vec3 =
  vx :: fp
  vy :: fp
  vz :: fp

text \<open>The literal 0.005f is the binary32 nearest to 5/1000.\<close>

definition float_eq :: "fp \<Rightarrow> fp \<Rightarrow> bool" where
  "float_eq x y = flt (fabs (fsub binary32 x y)) (rnd binary32 (5 / 1000))"

definition map_ufnorm :: "fp \<Rightarrow> fp" where
  "map_ufnorm x = fmul binary32 (fadd binary32 x (Fin 1)) (Fin (1 / 2))"

text \<open>
  In \<open>x * 2.0 - 1.0f\<close> the literal 2.0 is a double: the product and the difference are
  computed in binary64 and the return converts the result to float.
\<close>

definition map_sfnorm :: "fp \<Rightarrow> fp" where
  "map_sfnorm x = to_float (fsub binary64 (fmul binary64 (to_double x) (Fin 2)) (to_double (Fin 1)))"

text \<open>The constants \<open>s\<close>: \<open>glm::pow(2.0f, 15.0f) - 1.0f\<close> is 32767 and its 16-bit sibling 65535.\<close>

definition map_ftou15 :: "fp \<Rightarrow> 32 word option" where
  "map_ftou15 x = map_option (\<lambda>u. u AND 0x0000FFFF) (to_uint32 (fround (fmul binary32 x (Fin 32767))))"

definition map_ftou16 :: "fp \<Rightarrow> 32 word option" where
  "map_ftou16 x = to_uint32 (fround (fmul binary32 x (Fin 65535)))"

definition pack :: "vec3 \<Rightarrow> 32 word option" where
  "pack n =
     (let ufx = map_ufnorm (vx n);
          ufy = map_ufnorm (vy n)
      in case map_ftou16 ufx of None \<Rightarrow> None | Some ux \<Rightarrow>
         (case map_ftou15 ufy of None \<Rightarrow> None | Some uy \<Rightarrow>
            (let ua = (if flt (vz n) (Fin 0) then 1 else 0)
             in Some (push_bit 16 ux OR push_bit 1 uy OR ua))))"

definition unpack :: "32 word \<Rightarrow> vec3" where
  "unpack p =
     (let x = drop_bit 16 p;
          y = drop_bit 1 (p AND 0x0000FFFF);
          a = p AND 0x01;
          fx = map_sfnorm (fdiv binary32 (of_uint32 x) (Fin 65535));
          fy = map_sfnorm (fdiv binary32 (of_uint32 y) (Fin 32767));
          fa = (if a = 1 then Fin (- 1) else Fin 1);
          fz = fmul binary32
                 (fsqrt binary32
                    (fsub binary32 (Fin 1) (fadd binary32 (fmul binary32 fx fx) (fmul binary32 fy fy))))
                 fa
      in \<lparr>vx = fx, vy = fy, vz = fz\<rparr>)"

definition vector_equals :: "vec3 \<Rightarrow> vec3 \<Rightarrow> bool" where
  "vector_equals v1 v2 =
     (float_eq (vx v1) (vx v2) \<and> float_eq (vy v1) (vy v2) \<and> float_eq (vz v1) (vz v2))"

text \<open>The argument of glm::sqrt in unpack, from the x and y components unpack returns.\<close>

definition unpack_radicand :: "32 word \<Rightarrow> fp" where
  "unpack_radicand p =
     fsub binary32 (Fin 1)
       (fadd binary32 (fmul binary32 (vx (unpack p)) (vx (unpack p)))
          (fmul binary32 (vy (unpack p)) (vy (unpack p))))"

text \<open>
  The Euclidean length of a vector as glm::length computes it, used to state that an
  input is a unit vector: the square root of the dot product \<open>x*x + y*y + z*z\<close>,
  every operation in binary32.
\<close>

definition vec_length :: "vec3 \<Rightarrow> fp" where
  "vec_length v =
     fsqrt binary32
       (fadd binary32
          (fadd binary32 (fmul binary32 (vx v) (vx v)) (fmul binary32 (vy v) (vy v)))
          (fmul binary32 (vz v) (vz v)))"

section \<open>Evaluating the model on literals\<close>

lemma floor_rat_numeral [simp]:
  "\<lfloor>numeral a / numeral b :: rat\<rfloor> = numeral a div numeral b"
  by (metis floor_divide_of_int_eq of_int_numeral)

lemma floor_rat_neg_numeral [simp]:
  "\<lfloor>- (numeral a / numeral b) :: rat\<rfloor> = - numeral a div numeral b"
  by (metis divide_minus_left floor_divide_of_int_eq of_int_neg_numeral of_int_numeral)

lemma floor_rat_one_numeral [simp]:
  "\<lfloor>1 / numeral b :: rat\<rfloor> = 1 div numeral b"
  by (metis floor_divide_of_int_eq of_int_numeral of_int_1)

lemma floor_rat_neg_one_numeral [simp]:
  "\<lfloor>- (1 / numeral b) :: rat\<rfloor> = - 1 div numeral b"
  by (metis divide_minus_left floor_divide_of_int_eq of_int_minus of_int_numeral of_int_1)

lemmas round_defs = rnd_def round_fin_def quantum_def rne_def largest_def
  binary32_def binary64_def Let_def

lemmas codec_defs = map_ufnorm_def map_sfnorm_def map_ftou15_def map_ftou16_def fsub_def
  round_half_away_def trunc_zero_def of_uint32_def

section \<open>Rounding: binades, bounds and exact cases\<close>

lemma ilog2_bounds:
  "0 < q \<Longrightarrow> 2 powi ilog2 q \<le> q \<and> q < 2 powi (ilog2 q + 1)"
proof (induction q rule: ilog2.induct)
  case (1 q)
  show ?case
  proof (cases "2 \<le> q")
    case True
    then have e: "ilog2 q = ilog2 (q / 2) + 1"
      using 1(3) by (subst ilog2.simps) simp
    have "2 powi ilog2 (q / 2) \<le> q / 2 \<and> q / 2 < 2 powi (ilog2 (q / 2) + 1)"
      using 1(1) 1(3) True by simp
    then show ?thesis
      unfolding e by (simp add: power_int_add)
  next
    case False
    show ?thesis
    proof (cases "q < 1")
      case True
      then have e: "ilog2 q = ilog2 (q * 2) - 1"
        using 1(3) False by (subst ilog2.simps) simp
      have "2 powi ilog2 (q * 2) \<le> q * 2 \<and> q * 2 < 2 powi (ilog2 (q * 2) + 1)"
        using 1(2) 1(3) False True by simp
      then show ?thesis
        unfolding e by (simp add: power_int_add power_int_diff)
    next
      case False
      then have e: "ilog2 q = 0"
        using 1(3) \<open>\<not> 2 \<le> q\<close> by (subst ilog2.simps) simp
      show ?thesis
        unfolding e using False \<open>\<not> 2 \<le> q\<close> by simp
    qed
  qed
qed

lemma rne_ge: "of_int k \<le> q \<Longrightarrow> k \<le> rne q"
proof -
  assume "of_int k \<le> q"
  then have "k \<le> \<lfloor>q\<rfloor>" by (simp add: le_floor_iff)
  then show ?thesis by (auto simp: rne_def Let_def)
qed

lemma rne_le: "q \<le> of_int k \<Longrightarrow> rne q \<le> k"
proof -
  assume a: "q \<le> of_int k"
  have f: "\<lfloor>q\<rfloor> \<le> k" using a by (simp add: floor_le_iff)
  show ?thesis
  proof (cases "\<lfloor>q\<rfloor> = k")
    case True
    then have "q = of_int k" using a of_int_floor_le [of q] by simp
    then show ?thesis by (simp add: rne_def)
  next
    case False
    then have "\<lfloor>q\<rfloor> + 1 \<le> k" using f by simp
    then show ?thesis by (auto simp: rne_def Let_def)
  qed
qed

lemma rne_of_int [simp]: "rne (of_int k) = k"
  by (simp add: rne_def)

lemma rne_error: "\<bar>of_int (rne q) - q\<bar> \<le> 1 / 2"
proof -
  have "of_int \<lfloor>q\<rfloor> \<le> q" "q < of_int \<lfloor>q\<rfloor> + 1" by linarith+
  then show ?thesis by (auto simp: rne_def Let_def)
qed

lemma rne_minus: "rne (- q) = - rne q"
proof (cases "q = of_int \<lfloor>q\<rfloor>")
  case True
  then obtain k where "q = of_int k" by blast
  then show ?thesis by (simp flip: of_int_minus)
next
  case False
  have b: "of_int \<lfloor>q\<rfloor> < q" "q < of_int \<lfloor>q\<rfloor> + 1"
    using False of_int_floor_le [of q] by linarith+
  have fl: "\<lfloor>- q\<rfloor> = - \<lfloor>q\<rfloor> - 1"
    using b by (simp add: floor_eq_iff) 
  show ?thesis
    using b by (auto simp: rne_def Let_def fl)
qed


lemma quantum_minus: "quantum F (- q) = quantum F q"
  by (simp add: quantum_def)

lemma quantum_ge: "qmin F \<le> quantum F q"
  by (simp add: quantum_def)

lemma round_fin_minus: "round_fin F (- q) = - round_fin F q"
  by (simp add: round_fin_def quantum_minus rne_minus)

lemma round_fin_nonneg:
  assumes "0 \<le> q"
  shows "0 \<le> round_fin F q"
proof -
  have "of_int 0 \<le> q / 2 powi quantum F q"
    using assms by simp
  then have "0 \<le> rne (q / 2 powi quantum F q)"
    by (rule rne_ge)
  then show ?thesis
    by (simp add: round_fin_def)
qed

lemma round_fin_nonpos: "q \<le> 0 \<Longrightarrow> round_fin F q \<le> 0"
  using round_fin_nonneg [of "- q" F] by (simp add: round_fin_minus)

lemma quantum_le_exponent:
  assumes "0 < q" and "q \<le> of_int m * 2 powi f" and "m < 2 ^ prec F" and "qmin F \<le> f"
  shows "quantum F q \<le> f"
proof (rule ccontr)
  assume "\<not> quantum F q \<le> f"
  then have "f + int (prec F) \<le> ilog2 q"
    using assms(1,4) by (simp add: quantum_def max_def split: if_splits)
  then have up: "(2::rat) powi (f + int (prec F)) \<le> 2 powi ilog2 q"
    by (simp add: power_int_increasing)
  have "(of_int m :: rat) < of_int (2 ^ prec F)"
    using assms(3) by (simp only: of_int_less_iff)
  then have "of_int m * 2 powi f < (2::rat) ^ prec F * 2 powi f"
    by simp
  also have "\<dots> = 2 powi (f + int (prec F))"
    by (simp add: power_int_add)
  also have "\<dots> \<le> 2 powi ilog2 q"
    by (rule up)
  also have "\<dots> \<le> q"
    using ilog2_bounds [OF assms(1)] by simp
  finally show False
    using assms(2) by simp
qed

lemma scale_to_quantum:
  assumes "e \<le> f"
  shows "(of_int m :: rat) * 2 powi f = of_int (m * 2 ^ nat (f - e)) * 2 powi e"
proof -
  have "(2::rat) powi f = 2 powi (f - e) * 2 powi e"
    by (simp flip: power_int_add)
  moreover have "(2::rat) powi (f - e) = 2 ^ nat (f - e)"
    using assms by (simp add: power_int_nonneg_exp)
  ultimately show ?thesis
    by simp
qed

lemma round_fin_le_pos:
  assumes "0 < q" and "q \<le> of_int m * 2 powi f" and "m < 2 ^ prec F" and "qmin F \<le> f"
  shows "round_fin F q \<le> of_int m * 2 powi f"
proof -
  define e where "e = quantum F q"
  have ef: "e \<le> f"
    unfolding e_def using assms by (rule quantum_le_exponent)
  note sc = scale_to_quantum [OF ef, of m]
  have "q / 2 powi e \<le> of_int (m * 2 ^ nat (f - e))"
    using assms(2) unfolding sc by (simp add: field_simps)
  then have "rne (q / 2 powi e) \<le> m * 2 ^ nat (f - e)"
    by (rule rne_le)
  then have "(of_int (rne (q / 2 powi e)) :: rat) \<le> of_int (m * 2 ^ nat (f - e))"
    by (simp only: of_int_le_iff)
  then have "of_int (rne (q / 2 powi e)) * 2 powi e \<le> of_int (m * 2 ^ nat (f - e)) * (2::rat) powi e"
    by (rule mult_right_mono) simp
  then show ?thesis
    using assms(1) unfolding sc by (simp add: round_fin_def e_def)
qed

lemma round_fin_le:
  assumes "q \<le> of_int m * 2 powi f" and "0 \<le> m" and "m < 2 ^ prec F" and "qmin F \<le> f"
  shows "round_fin F q \<le> of_int m * 2 powi f"
proof (cases "0 < q")
  case True
  then show ?thesis using assms by (simp add: round_fin_le_pos)
next
  case False
  then have "round_fin F q \<le> 0" by (simp add: round_fin_nonpos)
  also have "0 \<le> (of_int m :: rat) * 2 powi f" using assms(2) by simp
  finally show ?thesis .
qed

lemma round_fin_ge:
  assumes "- (of_int m * 2 powi f) \<le> q" and "0 \<le> m" and "m < 2 ^ prec F" and "qmin F \<le> f"
  shows "- (of_int m * 2 powi f) \<le> round_fin F q"
proof -
  have "- q \<le> of_int m * 2 powi f" using assms(1) by simp
  then have "round_fin F (- q) \<le> of_int m * 2 powi f"
    using assms(2-4) by (rule round_fin_le)
  then show ?thesis by (simp add: round_fin_minus)
qed

lemma round_fin_exact_pos:
  assumes "0 < m" and "m < 2 ^ prec F" and "qmin F \<le> f"
  shows "round_fin F (of_int m * 2 powi f) = of_int m * 2 powi f"
proof -
  define a :: rat where "a = of_int m * 2 powi f"
  have pos: "0 < a" using assms(1) by (simp add: a_def)
  define e where "e = quantum F a"
  have ef: "e \<le> f"
    unfolding e_def using pos _ assms(2,3) by (rule quantum_le_exponent) (simp add: a_def)
  have sc: "a = of_int (m * 2 ^ nat (f - e)) * 2 powi e"
    unfolding a_def by (rule scale_to_quantum [OF ef])
  have "a / 2 powi e = of_int (m * 2 ^ nat (f - e))"
    by (subst sc) simp
  then have "rne (a / 2 powi e) = m * 2 ^ nat (f - e)"
    by (simp only: rne_of_int)
  then have "round_fin F a = of_int (m * 2 ^ nat (f - e)) * 2 powi e"
    using pos by (simp add: round_fin_def e_def)
  also have "\<dots> = a"
    by (rule sc [symmetric])
  finally show ?thesis
    by (simp only: a_def)
qed

lemma round_fin_exact:
  assumes "\<bar>m\<bar> < 2 ^ prec F" and "qmin F \<le> f"
  shows "round_fin F (of_int m * 2 powi f) = of_int m * 2 powi f"
proof (cases "0 < m")
  case True
  then show ?thesis using assms by (simp add: round_fin_exact_pos)
next
  case False
  show ?thesis
  proof (cases "m = 0")
    case True
    then show ?thesis by (simp add: round_fin_def)
  next
    case False
    then have "0 < - m" "- m < 2 ^ prec F" using \<open>\<not> 0 < m\<close> assms(1) by simp_all
    then have "round_fin F (of_int (- m) * 2 powi f) = of_int (- m) * 2 powi f"
      using assms(2) by (rule round_fin_exact_pos)
    then show ?thesis
      using round_fin_minus [of F "of_int m * 2 powi f"] by simp
  qed
qed

lemma format_simps [simp]:
  "prec binary32 = 24" "qmin binary32 = - 149" "qmax binary32 = 104"
  "prec binary64 = 53" "qmin binary64 = - 1074" "qmax binary64 = 971"
  by (simp_all add: binary32_def binary64_def)

lemma rnd_Fin:
  "- largest F \<le> round_fin F q \<Longrightarrow> round_fin F q \<le> largest F \<Longrightarrow> rnd F q = Fin (round_fin F q)"
  by (simp add: rnd_def Let_def)

lemma rnd_signed:
  assumes "- of_int N \<le> q" and "q \<le> of_int N"
    and "0 \<le> N" and "N < 2 ^ prec F" and "qmin F \<le> 0" and "of_int N \<le> largest F"
  shows "rnd F q = Fin (round_fin F q) \<and> - of_int N \<le> round_fin F q \<and> round_fin F q \<le> of_int N"
proof -
  have up: "round_fin F q \<le> of_int N * 2 powi 0"
    using assms by (intro round_fin_le) simp_all
  have lo: "- (of_int N * 2 powi 0) \<le> round_fin F q"
    using assms by (intro round_fin_ge) simp_all
  show ?thesis
    using up lo assms(6) by (simp add: rnd_Fin)
qed

lemma rnd_unsigned:
  assumes "0 \<le> q" and "q \<le> of_int N"
    and "N < 2 ^ prec F" and "qmin F \<le> 0" and "of_int N \<le> largest F"
  shows "rnd F q = Fin (round_fin F q) \<and> 0 \<le> round_fin F q \<and> round_fin F q \<le> of_int N"
proof -
  have n: "0 \<le> N"
    using assms(1,2) by (metis of_int_0_le_iff order_trans)
  have up: "round_fin F q \<le> of_int N * 2 powi 0"
    using assms n by (intro round_fin_le) simp_all
  have lo: "0 \<le> round_fin F q"
    using assms(1) by (rule round_fin_nonneg)
  have "0 \<le> largest F"
    using assms(5) n by (metis of_int_0_le_iff order_trans)
  then show ?thesis
    using up lo assms(5) by (simp add: rnd_Fin)
qed

lemma round_fin_grid: "\<exists>K. round_fin F q = of_int K * 2 powi qmin F"
proof (cases "q = 0")
  case True
  then have "round_fin F q = of_int 0 * 2 powi qmin F" by (simp add: round_fin_def)
  then show ?thesis by blast
next
  case False
  have "round_fin F q = of_int (rne (q / 2 powi quantum F q)) * 2 powi quantum F q"
    using False by (simp add: round_fin_def)
  also have "\<dots> = of_int (rne (q / 2 powi quantum F q) * 2 ^ nat (quantum F q - qmin F)) * 2 powi qmin F"
    by (rule scale_to_quantum [OF quantum_ge])
  finally show ?thesis by blast
qed

lemma quantum_power_le:
  assumes "2 powi qmin F \<le> q" and "0 < prec F"
  shows "2 powi quantum F q \<le> q"
proof -
  have pos: "0 < q"
    using assms(1) by (rule less_le_trans [rotated]) simp
  have "(2::rat) powi (ilog2 q - (int (prec F) - 1)) \<le> 2 powi ilog2 q"
    using assms(2) by (intro power_int_increasing) simp_all
  also have "\<dots> \<le> q"
    using ilog2_bounds [OF pos] by simp
  finally show ?thesis
    using assms(1) pos by (simp add: quantum_def max_def)
qed

lemma round_fin_pos:
  assumes "2 powi qmin F \<le> q" and "0 < prec F"
  shows "2 powi qmin F \<le> round_fin F q"
proof -
  have pos: "0 < q"
    using assms(1) by (rule less_le_trans [rotated]) simp
  have "of_int 1 \<le> q / 2 powi quantum F q"
    using quantum_power_le [OF assms] by (simp add: field_simps)
  then have "1 \<le> rne (q / 2 powi quantum F q)"
    by (rule rne_ge)
  then have "(1::rat) \<le> of_int (rne (q / 2 powi quantum F q))"
    by simp
  then have "1 * 2 powi quantum F q \<le> of_int (rne (q / 2 powi quantum F q)) * (2::rat) powi quantum F q"
    by (rule mult_right_mono) simp
  then have "2 powi quantum F q \<le> round_fin F q"
    using pos by (simp add: round_fin_def)
  moreover have "(2::rat) powi qmin F \<le> 2 powi quantum F q"
    by (intro power_int_increasing quantum_ge) simp
  ultimately show ?thesis
    by (rule order_trans [rotated])
qed

lemma ilog2_le:
  assumes "0 < q" and "q < 2 powi (K + 1)"
  shows "ilog2 q \<le> K"
proof (rule ccontr)
  assume "\<not> ilog2 q \<le> K"
  then have "K + 1 \<le> ilog2 q" by simp
  then have "(2::rat) powi (K + 1) \<le> 2 powi ilog2 q"
    by (intro power_int_increasing) simp_all
  also have "\<dots> \<le> q"
    using ilog2_bounds [OF assms(1)] by simp
  finally show False
    using assms(2) by simp
qed

lemma round_fin_error:
  assumes "\<bar>q\<bar> < 2 powi (K + 1)" and "qmin F \<le> K + 1 - int (prec F)"
  shows "\<bar>round_fin F q - q\<bar> \<le> 2 powi (K - int (prec F))"
proof (cases "q = 0")
  case True
  then show ?thesis by (simp add: round_fin_def)
next
  case False
  define e where "e = quantum F q"
  have "ilog2 \<bar>q\<bar> \<le> K"
    using False assms(1) by (intro ilog2_le) simp_all
  then have eK: "e \<le> K + 1 - int (prec F)"
    using assms(2) by (simp add: e_def quantum_def)
  have "round_fin F q - q = (of_int (rne (q / 2 powi e)) - q / 2 powi e) * 2 powi e"
    using False by (simp add: round_fin_def e_def algebra_simps)
  then have "\<bar>round_fin F q - q\<bar> = \<bar>of_int (rne (q / 2 powi e)) - q / 2 powi e\<bar> * 2 powi e"
    by (simp add: abs_mult)
  also have "\<dots> \<le> 1 / 2 * 2 powi e"
    by (intro mult_right_mono rne_error) simp
  also have "\<dots> \<le> 1 / 2 * 2 powi (K + 1 - int (prec F))"
    using eK by (intro mult_left_mono power_int_increasing) simp_all
  also have "\<dots> = 2 powi (K - int (prec F))"
    by (simp add: power_int_diff power_int_add)
  finally show ?thesis .
qed

lemma largest_binary32: "largest binary32 = 340282346638528859811704183484516925440"
  by (simp add: largest_def)

lemma largest_binary64_ge: "4 \<le> largest binary64"
proof -
  have "(4::rat) \<le> (2 ^ 53 - 1) * 1" by simp
  also have "\<dots> \<le> (2 ^ 53 - 1) * 2 powi 971"
    by (intro mult_left_mono one_le_power_int) simp_all
  finally show ?thesis by (simp add: largest_def)
qed

lemma rnd32_unsigned:
  assumes "0 \<le> q" and "q \<le> of_int N" and "N < 2 ^ 24"
  shows "rnd binary32 q = Fin (round_fin binary32 q) \<and> 0 \<le> round_fin binary32 q \<and>
         round_fin binary32 q \<le> of_int N"
proof -
  have "(of_int N :: rat) \<le> of_int (2 ^ 24)"
    using assms(3) by simp
  then have "of_int N \<le> largest binary32"
    by (simp add: largest_binary32)
  then show ?thesis
    using assms by (intro rnd_unsigned) simp_all
qed

lemma rnd32_signed:
  assumes "- of_int N \<le> q" and "q \<le> of_int N" and "0 \<le> N" and "N < 2 ^ 24"
  shows "rnd binary32 q = Fin (round_fin binary32 q) \<and> - of_int N \<le> round_fin binary32 q \<and>
         round_fin binary32 q \<le> of_int N"
proof -
  have "(of_int N :: rat) \<le> of_int (2 ^ 24)"
    using assms(4) by simp
  then have "of_int N \<le> largest binary32"
    by (simp add: largest_binary32)
  then show ?thesis
    using assms by (intro rnd_signed) simp_all
qed

lemma rnd64_signed:
  assumes "- of_int N \<le> q" and "q \<le> of_int N" and "0 \<le> N" and "N \<le> 4"
  shows "rnd binary64 q = Fin (round_fin binary64 q) \<and> - of_int N \<le> round_fin binary64 q \<and>
         round_fin binary64 q \<le> of_int N"
proof -
  have "(of_int N :: rat) \<le> of_int 4"
    using assms(4) by simp
  then have "of_int N \<le> largest binary64"
    using largest_binary64_ge by simp
  moreover have "N < 2 ^ prec binary64"
    using assms(4) by simp
  ultimately show ?thesis
    using assms by (intro rnd_signed) simp_all
qed

lemma rnd64_unsigned:
  assumes "0 \<le> q" and "q \<le> of_int N" and "N \<le> 4"
  shows "rnd binary64 q = Fin (round_fin binary64 q) \<and> 0 \<le> round_fin binary64 q \<and>
         round_fin binary64 q \<le> of_int N"
proof -
  have "(of_int N :: rat) \<le> of_int 4"
    using assms(3) by simp
  then have "of_int N \<le> largest binary64"
    using largest_binary64_ge by simp
  moreover have "N < 2 ^ prec binary64"
    using assms(3) by simp
  ultimately show ?thesis
    using assms by (intro rnd_unsigned) simp_all
qed

text \<open>map_ufnorm on [-1, 1]\<close>

lemma map_ufnorm_range:
  assumes "- 1 \<le> a" and "a \<le> 1"
  shows "\<exists>u. map_ufnorm (Fin a) = Fin u \<and> 0 \<le> u \<and> u \<le> 1"
proof -
  define r where "r = round_fin binary32 (a + 1)"
  have 1: "rnd binary32 (a + 1) = Fin r \<and> 0 \<le> r \<and> r \<le> of_int 2"
    unfolding r_def using assms by (intro rnd32_unsigned) simp_all
  have 2: "rnd binary32 (r * (1 / 2)) = Fin (round_fin binary32 (r * (1 / 2))) \<and>
      0 \<le> round_fin binary32 (r * (1 / 2)) \<and> round_fin binary32 (r * (1 / 2)) \<le> of_int 1"
    using 1 by (intro rnd32_unsigned) simp_all
  show ?thesis
    using 1 2 by (simp add: map_ufnorm_def)
qed

lemma round_half_away_range:
  assumes "0 \<le> r" and "r \<le> of_int N"
  shows "0 \<le> round_half_away r \<and> round_half_away r \<le> N"
proof -
  have "r + 1 / 2 < of_int N + 1"
    using assms(2) by simp
  then have "\<lfloor>r + 1 / 2\<rfloor> \<le> N"
    by (simp only: floor_le_iff)
  moreover have "0 \<le> \<lfloor>r + 1 / 2\<rfloor>"
    using assms(1) by simp
  ultimately show ?thesis
    using assms(1) by (simp add: round_half_away_def)
qed

lemma to_uint32_of_int:
  assumes "0 \<le> k" and "k < 2 ^ 32"
  shows "to_uint32 (Fin (of_int k)) = Some (word_of_int k)"
  using assms by (simp add: trunc_zero_def)

lemma quantize_range:
  assumes "0 \<le> u" and "u \<le> 1" and "0 < N" and "N < 2 ^ 24"
  shows "\<exists>k. to_uint32 (fround (fmul binary32 (Fin u) (Fin (of_int N)))) = Some (word_of_int k) \<and>
             0 \<le> k \<and> k \<le> N \<and> k = round_half_away (round_fin binary32 (u * of_int N))"
proof -
  define r where "r = round_fin binary32 (u * of_int N)"
  have "u * of_int N \<le> 1 * of_int N"
    using assms by (intro mult_right_mono) simp_all
  then have 1: "rnd binary32 (u * of_int N) = Fin r \<and> 0 \<le> r \<and> r \<le> of_int N"
    unfolding r_def using assms by (intro rnd32_unsigned) simp_all
  have 2: "0 \<le> round_half_away r \<and> round_half_away r \<le> N"
    using 1 by (intro round_half_away_range) simp_all
  then have "round_half_away r < 2 ^ 32"
    using assms(4) by simp
  then have "to_uint32 (Fin (of_int (round_half_away r))) = Some (word_of_int (round_half_away r))"
    using 2 by (intro to_uint32_of_int) simp_all
  then show ?thesis
    using 1 2 by (simp add: r_def)
qed

lemma uint_word_of_int_small:
  assumes "0 \<le> k" and "k < 2 ^ 32"
  shows "uint (word_of_int k :: 32 word) = k"
  using assms by (simp add: uint_word_of_int_eq take_bit_int_eq_self)

lemma word_le_of_uint:
  fixes w :: "32 word"
  assumes "uint w \<le> N" and "N < 2 ^ 32" and "0 \<le> N"
  shows "w \<le> word_of_int N"
  using assms by (simp add: word_le_def uint_word_of_int_eq take_bit_int_eq_self)

lemma bits_below:
  fixes w :: "32 word"
  assumes "uint w < 2 ^ m" and "bit w n"
  shows "n < m"
proof -
  have "w AND mask m = w"
    using assms(1) by (simp only: mask_eq_iff)
  then have "take_bit m w = w"
    by (simp only: take_bit_eq_mask)
  then have "bit (take_bit m w) n"
    using assms(2) by simp
  then show ?thesis
    by (simp add: bit_take_bit_iff)
qed

lemma mask_numerals:
  "(0xFFFF :: 32 word) = mask 16" "(1 :: 32 word) = mask 1"
  by (simp_all add: mask_eq_exp_minus_1)

lemma assemble_fields:
  fixes ux uy ua :: "32 word"
  assumes "ux \<le> 0xFFFF" and "uy \<le> 0x7FFF" and "ua \<le> 1"
  shows "drop_bit 16 (push_bit 16 ux OR push_bit 1 uy OR ua) = ux"
    and "drop_bit 1 ((push_bit 16 ux OR push_bit 1 uy OR ua) AND 0x0000FFFF) = uy"
    and "(push_bit 16 ux OR push_bit 1 uy OR ua) AND 0x01 = ua"
    and "take_bit 15 (drop_bit 1 (push_bit 16 ux OR push_bit 1 uy OR ua)) = uy"
proof -
  have "uint ux < 2 ^ 16"
    using assms(1) by (simp add: word_le_def)
  then have hx: "n < 16" if "bit ux n" for n
    using that by (rule bits_below)
  have "uint uy < 2 ^ 15"
    using assms(2) by (simp add: word_le_def)
  then have hy: "n < 15" if "bit uy n" for n
    using that by (rule bits_below)
  have "uint ua < 2 ^ 1"
    using assms(3) by (simp add: word_le_def)
  then have ha: "n < 1" if "bit ua n" for n
    using that by (rule bits_below)
  show "drop_bit 16 (push_bit 16 ux OR push_bit 1 uy OR ua) = ux"
    by (rule bit_word_eqI) (auto simp add: bit_simps simp del: push_bit_Suc drop_bit_Suc dest: hx hy ha)
  show "drop_bit 1 ((push_bit 16 ux OR push_bit 1 uy OR ua) AND 0x0000FFFF) = uy"
    unfolding mask_numerals
    by (rule bit_word_eqI) (auto simp add: bit_simps simp del: push_bit_Suc drop_bit_Suc dest: hx hy ha)
  show "(push_bit 16 ux OR push_bit 1 uy OR ua) AND 0x01 = ua"
    unfolding mask_numerals
    by (rule bit_word_eqI) (auto simp add: bit_simps simp del: push_bit_Suc drop_bit_Suc dest: hx hy ha)
  show "take_bit 15 (drop_bit 1 (push_bit 16 ux OR push_bit 1 uy OR ua)) = uy"
    by (rule bit_word_eqI) (auto simp add: bit_simps simp del: push_bit_Suc drop_bit_Suc dest: hx hy ha)
qed

lemma map_ftou16_range:
  assumes "0 \<le> u" and "u \<le> 1"
  shows "\<exists>k. map_ftou16 (Fin u) = Some (word_of_int k) \<and> 0 \<le> k \<and> k \<le> 65535 \<and>
             k = round_half_away (round_fin binary32 (u * 65535)) \<and> (word_of_int k :: 32 word) \<le> 0xFFFF"
proof -
  obtain k where k: "to_uint32 (fround (fmul binary32 (Fin u) (Fin (of_int 65535)))) = Some (word_of_int k)"
      "0 \<le> k" "k \<le> 65535" "k = round_half_away (round_fin binary32 (u * of_int 65535))"
    using quantize_range [OF assms, of 65535] by auto
  have "uint (word_of_int k :: 32 word) \<le> 65535"
    using k(2,3) by (simp add: uint_word_of_int_small)
  then have "(word_of_int k :: 32 word) \<le> word_of_int 65535"
    by (rule word_le_of_uint) simp_all
  then show ?thesis
    using k by (auto simp: map_ftou16_def)
qed

lemma and_mask16_small:
  fixes w :: "32 word"
  assumes "w \<le> 0x7FFF"
  shows "w AND 0x0000FFFF = w"
proof -
  have "uint w < 2 ^ 16"
    using assms by (simp add: word_le_def)
  then show ?thesis
    unfolding mask_numerals by (simp only: mask_eq_iff)
qed

lemma map_ftou15_range:
  assumes "0 \<le> u" and "u \<le> 1"
  shows "\<exists>k. map_ftou15 (Fin u) = Some (word_of_int k) \<and> 0 \<le> k \<and> k \<le> 32767 \<and>
             k = round_half_away (round_fin binary32 (u * 32767)) \<and> (word_of_int k :: 32 word) \<le> 0x7FFF"
proof -
  obtain k where k: "to_uint32 (fround (fmul binary32 (Fin u) (Fin (of_int 32767)))) = Some (word_of_int k)"
      "0 \<le> k" "k \<le> 32767" "k = round_half_away (round_fin binary32 (u * of_int 32767))"
    using quantize_range [OF assms, of 32767] by auto
  have "uint (word_of_int k :: 32 word) \<le> 32767"
    using k(2,3) by (simp add: uint_word_of_int_small)
  then have le: "(word_of_int k :: 32 word) \<le> word_of_int 32767"
    by (rule word_le_of_uint) simp_all
  then have "(word_of_int k :: 32 word) AND 0x0000FFFF = word_of_int k"
    by (intro and_mask16_small) simp
  then show ?thesis
    using k le by (auto simp: map_ftou15_def)
qed

section \<open>The endpoint contracts of the mappers\<close>

text \<open>
  C5: the integer quantizers map 0.0 to 0 and 1.0 to their largest code:
  map_ftou15(0.0) = 0, map_ftou15(1.0) = 32767, map_ftou16(0.0) = 0 and
  map_ftou16(1.0) = 65535, as the static_asserts of pack.cpp state.
\<close>

theorem quantizer_endpoints:
  "map_ftou15 (Fin 0) = Some 0 \<and> map_ftou15 (Fin 1) = Some 32767 \<and>
   map_ftou16 (Fin 0) = Some 0 \<and> map_ftou16 (Fin 1) = Some 65535"
  by (simp add: codec_defs round_defs ilog2.simps)

text \<open>
  C6: the range mappers are exact at their endpoints: map_ufnorm sends -1, 0, 1 to
  0, 0.5, 1 and map_sfnorm sends 0, 0.5, 1 to -1, 0, 1.
\<close>

theorem mapper_endpoints:
  "map_ufnorm (Fin (- 1)) = Fin 0 \<and> map_ufnorm (Fin 0) = Fin (1 / 2) \<and>
   map_ufnorm (Fin 1) = Fin 1 \<and> map_sfnorm (Fin 0) = Fin (- 1) \<and>
   map_sfnorm (Fin (1 / 2)) = Fin 0 \<and> map_sfnorm (Fin 1) = Fin 1"
  by (simp add: codec_defs round_defs ilog2.simps)

lemma fle_zero_not_negative: "fle (Fin 0) z \<Longrightarrow> \<not> flt z (Fin 0)"
  by (cases z) simp_all

lemma pack_cong:
  assumes "vx v1 = vx v2" and "vy v1 = vy v2" and "flt (vz v1) (Fin 0) = flt (vz v2) (Fin 0)"
  shows "pack v1 = pack v2"
  using assms by (simp add: pack_def)

lemma sign_bit_le_1: "(if c then 1 else 0 :: 32 word) \<le> 1"
  by simp

section \<open>The layout of the packed word\<close>

text \<open>
  C7: for every in-domain input in [0, 1], map_ftou16 returns at most 65535 and
  map_ftou15 at most 32767, so the three fields of the assembled word do not overlap:
  each one is read back unchanged from \<open>(ux << 16) | (uy << 1) | ua\<close>.
\<close>

theorem quantizers_fit:
  assumes "0 \<le> a" and "a \<le> 1" and "0 \<le> b" and "b \<le> 1" and "ua \<le> 1"
  shows "\<exists>ux uy. map_ftou16 (Fin a) = Some ux \<and> ux \<le> 65535 \<and>
           map_ftou15 (Fin b) = Some uy \<and> uy \<le> 32767 \<and>
           drop_bit 16 (push_bit 16 ux OR push_bit 1 uy OR ua) = ux \<and>
           drop_bit 1 ((push_bit 16 ux OR push_bit 1 uy OR ua) AND 0x0000FFFF) = uy \<and>
           (push_bit 16 ux OR push_bit 1 uy OR ua) AND 0x01 = ua"
proof -
  obtain k where k: "map_ftou16 (Fin a) = Some (word_of_int k)" "(word_of_int k :: 32 word) \<le> 0xFFFF"
    using map_ftou16_range [OF assms(1,2)] by blast
  obtain l where l: "map_ftou15 (Fin b) = Some (word_of_int l)" "(word_of_int l :: 32 word) \<le> 0x7FFF"
    using map_ftou15_range [OF assms(3,4)] by blast
  show ?thesis
    using k l assemble_fields [OF k(2) l(2) assms(5)] by simp
qed

theorem quantizers_fit_witness:
  "(0::rat) \<le> 1 / 2 \<and> (1::rat) / 2 \<le> 1 \<and> (1 :: 32 word) \<le> 1 \<and>
   (\<exists>ux uy. map_ftou16 (Fin (1 / 2)) = Some ux \<and> ux \<le> 65535 \<and>
      map_ftou15 (Fin 1) = Some uy \<and> uy \<le> 32767 \<and>
      drop_bit 16 (push_bit 16 ux OR push_bit 1 uy OR 1) = ux \<and>
      drop_bit 1 ((push_bit 16 ux OR push_bit 1 uy OR 1) AND 0x0000FFFF) = uy \<and>
      (push_bit 16 ux OR push_bit 1 uy OR 1) AND 0x01 = 1)"
  using quantizers_fit [of "1 / 2" 1 1] by simp

text \<open>
  C3, as the code has it: for every input vector whose x and y components lie in
  [-1, 1], pack returns a word whose bits [31:16] are map_ftou16 of the unsigned-mapped x,
  whose bits [15:1] are map_ftou15 of the unsigned-mapped y, and whose bit 0 is set exactly
  when \<open>n.z < 0.0f\<close>.  Outside that domain the claim fails: the mask of map_ftou15 keeps
  16 bits, and a y code above 32767 spills into bit 16.
\<close>

theorem pack_layout:
  assumes "vx v = Fin a" and "- 1 \<le> a" and "a \<le> 1"
    and "vy v = Fin b" and "- 1 \<le> b" and "b \<le> 1"
  shows "\<exists>ux uy p. map_ftou16 (map_ufnorm (vx v)) = Some ux \<and>
           map_ftou15 (map_ufnorm (vy v)) = Some uy \<and> pack v = Some p \<and>
           drop_bit 16 p = ux \<and> take_bit 15 (drop_bit 1 p) = uy \<and>
           bit p 0 = flt (vz v) (Fin 0)"
proof -
  obtain u where u: "map_ufnorm (Fin a) = Fin u" "0 \<le> u" "u \<le> 1"
    using map_ufnorm_range [OF assms(2,3)] by blast
  obtain w where w: "map_ufnorm (Fin b) = Fin w" "0 \<le> w" "w \<le> 1"
    using map_ufnorm_range [OF assms(5,6)] by blast
  obtain k where k: "map_ftou16 (Fin u) = Some (word_of_int k)" "(word_of_int k :: 32 word) \<le> 0xFFFF"
    using map_ftou16_range [OF u(2,3)] by blast
  obtain l where l: "map_ftou15 (Fin w) = Some (word_of_int l)" "(word_of_int l :: 32 word) \<le> 0x7FFF"
    using map_ftou15_range [OF w(2,3)] by blast
  define ua :: "32 word" where "ua = (if flt (vz v) (Fin 0) then 1 else 0)"
  have ua: "ua \<le> 1"
    by (simp add: ua_def)
  define p where "p = push_bit 16 (word_of_int k) OR push_bit 1 (word_of_int l) OR ua"
  have pk: "pack v = Some p"
    by (simp add: pack_def assms(1,4) u(1) w(1) k(1) l(1) p_def ua_def)
  note f = assemble_fields [OF k(2) l(2) ua, folded p_def]
  have "bit p 0 = bit (p AND 0x01) 0"
    by (simp add: bit_simps)
  also have "\<dots> = bit ua 0"
    by (simp only: f(3))
  also have "\<dots> = flt (vz v) (Fin 0)"
    by (simp add: ua_def)
  finally have b0: "bit p 0 = flt (vz v) (Fin 0)" .
  show ?thesis
    using pk f(1) f(4) b0 by (simp add: assms(1,4) u(1) w(1) k(1) l(1))
qed

theorem pack_layout_witness:
  "\<exists>ux uy p. map_ftou16 (map_ufnorm (Fin 1)) = Some ux \<and>
     map_ftou15 (map_ufnorm (Fin 0)) = Some uy \<and>
     pack \<lparr>vx = Fin 1, vy = Fin 0, vz = Fin (- 1)\<rparr> = Some p \<and>
     drop_bit 16 p = ux \<and> take_bit 15 (drop_bit 1 p) = uy \<and> bit p 0 = flt (Fin (- 1)) (Fin 0)"
  using pack_layout [of "\<lparr>vx = Fin 1, vy = Fin 0, vz = Fin (- 1)\<rparr>" 1 0] by simp

text \<open>
  The input (0, 1 + 1/8192, 0): the y code is 32769, it is shifted to 0x10002, and
  bits [31:16] of the packed word are 0x8001 although the x code is 0x8000.
\<close>

theorem pack_layout_counterexample:
  "map_ftou16 (map_ufnorm (Fin 0)) = Some 0x8000 \<and>
   map_ftou15 (map_ufnorm (Fin (8193 / 8192))) = Some 0x8001 \<and>
   pack \<lparr>vx = Fin 0, vy = Fin (8193 / 8192), vz = Fin 0\<rparr> = Some 0x80010002 \<and>
   drop_bit 16 (0x80010002 :: 32 word) \<noteq> 0x8000"
  by (simp add: pack_def codec_defs round_defs ilog2.simps)

section \<open>What pack reads of its input\<close>

text \<open>
  C8: pack reads the z component through the test \<open>n.z < 0.0f\<close> only.  Two vectors
  with the same x and y whose z are both negative or both non-negative pack to the same
  word, and pack({0,0,1}) = 0x80008000 and pack({0,0,-1}) = 0x80008001 differ in bit 0
  only.
\<close>

theorem pack_z_sign_only:
  "(vx v1 = vx v2 \<and> vy v1 = vy v2 \<and>
      ((flt (vz v1) (Fin 0) \<and> flt (vz v2) (Fin 0)) \<or> (fle (Fin 0) (vz v1) \<and> fle (Fin 0) (vz v2)))
      \<longrightarrow> pack v1 = pack v2) \<and>
   pack \<lparr>vx = Fin 0, vy = Fin 0, vz = Fin 1\<rparr> = Some 0x80008000 \<and>
   pack \<lparr>vx = Fin 0, vy = Fin 0, vz = Fin (- 1)\<rparr> = Some 0x80008001 \<and>
   (0x80008000 :: 32 word) XOR 0x80008001 = 1"
proof (intro conjI impI)
  assume a: "vx v1 = vx v2 \<and> vy v1 = vy v2 \<and>
      ((flt (vz v1) (Fin 0) \<and> flt (vz v2) (Fin 0)) \<or> (fle (Fin 0) (vz v1) \<and> fle (Fin 0) (vz v2)))"
  then have "flt (vz v1) (Fin 0) = flt (vz v2) (Fin 0)"
    by (auto dest: fle_zero_not_negative)
  then show "pack v1 = pack v2"
    using a by (intro pack_cong) simp_all
next
  show "pack \<lparr>vx = Fin 0, vy = Fin 0, vz = Fin 1\<rparr> = Some 0x80008000"
    by (simp add: pack_def codec_defs round_defs ilog2.simps)
  show "pack \<lparr>vx = Fin 0, vy = Fin 0, vz = Fin (- 1)\<rparr> = Some 0x80008001"
    by (simp add: pack_def codec_defs round_defs ilog2.simps)
  show "(0x80008000 :: 32 word) XOR 0x80008001 = 1"
    by simp
qed

theorem pack_z_sign_only_witness:
  "fle (Fin 0) (Fin (1 / 4)) \<and> fle (Fin 0) PInf \<and>
   pack \<lparr>vx = Fin (1 / 2), vy = Fin (- 1), vz = Fin (1 / 4)\<rparr> =
   pack \<lparr>vx = Fin (1 / 2), vy = Fin (- 1), vz = PInf\<rparr>"
  using pack_z_sign_only [of "\<lparr>vx = Fin (1 / 2), vy = Fin (- 1), vz = Fin (1 / 4)\<rparr>"
      "\<lparr>vx = Fin (1 / 2), vy = Fin (- 1), vz = PInf\<rparr>"]
  by simp

lemma uint_high_field:
  fixes p :: "32 word"
  shows "uint (drop_bit 16 p) = uint p div 65536"
  by (simp add: drop_bit_eq_div uint_div)

lemma uint_mid_field:
  fixes p :: "32 word"
  shows "uint (drop_bit 1 (p AND 0x0000FFFF)) = uint p mod 65536 div 2"
proof -
  have "p AND 0x0000FFFF = take_bit 16 p"
    unfolding mask_numerals by (simp only: take_bit_eq_mask)
  then show ?thesis
    by (simp add: drop_bit_eq_div uint_div uint_mod unsigned_take_bit_eq take_bit_eq_mod)
qed

lemma high_field_range:
  fixes p :: "32 word"
  shows "0 \<le> uint p div 65536 \<and> uint p div 65536 \<le> 65535"
proof -
  have "uint p < 2 ^ 32" using uint_bounded [of p] by simp
  then have "uint p div 65536 < 65536" by simp
  then show ?thesis by (simp add: pos_imp_zdiv_nonneg_iff)
qed

lemma mid_field_range:
  fixes p :: "32 word"
  shows "0 \<le> uint p mod 65536 div 2 \<and> uint p mod 65536 div 2 \<le> 32767"
proof -
  have "uint p mod 65536 < 65536" by simp
  then have "uint p mod 65536 div 2 < 32768" by linarith
  then show ?thesis by (simp add: pos_imp_zdiv_nonneg_iff)
qed

lemma of_uint32_exact:
  assumes "uint w < 2 ^ 24"
  shows "of_uint32 w = Fin (of_int (uint w))"
proof -
  have "\<bar>uint w\<bar> < 2 ^ prec binary32"
    using assms by simp
  then have "round_fin binary32 (of_int (uint w) * 2 powi 0) = of_int (uint w) * 2 powi 0"
    by (rule round_fin_exact) simp
  then have e: "round_fin binary32 (of_int (uint w)) = of_int (uint w)"
    by (simp only: power_int_0_right mult_1_right)
  have "(of_int (uint w) :: rat) \<le> of_int (2 ^ 24)"
    using assms by (simp only: of_int_le_iff)
  then have up: "(of_int (uint w) :: rat) \<le> largest binary32"
    by (simp add: largest_binary32)
  have nn: "(0::rat) \<le> of_int (uint w)"
    by (simp only: of_int_0_le_iff uint_nonnegative)
  have "- largest binary32 \<le> 0"
    by (simp add: largest_binary32)
  then have lo: "- largest binary32 \<le> of_int (uint w)"
    using nn by (rule order_trans)
  have "rnd binary32 (of_int (uint w)) = Fin (round_fin binary32 (of_int (uint w)))"
    by (rule rnd_Fin) (simp_all only: e lo up)
  then show ?thesis
    by (simp only: of_uint32_def e)
qed

lemma dequantize_range:
  assumes "0 \<le> k" and "k \<le> N" and "0 < N"
  shows "\<exists>d. fdiv binary32 (Fin (of_int k)) (Fin (of_int N)) = Fin d \<and> 0 \<le> d \<and> d \<le> 1 \<and>
             \<bar>d - of_int k / of_int N\<bar> \<le> 2 powi (- 24)"
proof -
  define q :: rat where "q = of_int k / of_int N"
  have q: "0 \<le> q" "q \<le> of_int 1"
    using assms by (simp_all add: q_def)
  have r: "rnd binary32 q = Fin (round_fin binary32 q) \<and> 0 \<le> round_fin binary32 q \<and>
      round_fin binary32 q \<le> of_int 1"
    using q by (rule rnd32_unsigned) simp
  have "\<bar>q\<bar> < 2 powi (0 + 1)"
    using q by simp
  then have "\<bar>round_fin binary32 q - q\<bar> \<le> 2 powi (0 - int (prec binary32))"
    by (rule round_fin_error) simp
  then show ?thesis
    using r assms(3) by (simp add: q_def)
qed

lemma round64_one: "rnd binary64 1 = Fin 1"
proof -
  have "round_fin binary64 (of_int 1 * 2 powi 0) = of_int 1 * 2 powi 0"
    by (rule round_fin_exact) simp_all
  then have e: "round_fin binary64 1 = 1"
    by simp
  have "(1::rat) \<le> largest binary64"
    using largest_binary64_ge by simp
  then show ?thesis
    using e by (simp add: rnd_Fin)
qed

lemma map_sfnorm_spec:
  assumes "0 \<le> d" and "d \<le> 1"
  shows "\<exists>s. map_sfnorm (Fin d) = Fin s \<and> - 1 \<le> s \<and> s \<le> 1 \<and>
             \<bar>s - (2 * d - 1)\<bar> \<le> 2 powi (- 22)"
proof -
  define d1 where "d1 = round_fin binary64 d"
  define d2 where "d2 = round_fin binary64 (d1 * 2)"
  define d3 where "d3 = round_fin binary64 (d2 + - 1)"
  define s where "s = round_fin binary32 d3"
  have 1: "rnd binary64 d = Fin d1 \<and> 0 \<le> d1 \<and> d1 \<le> of_int 1"
    unfolding d1_def using assms by (intro rnd64_unsigned) simp_all
  have 2: "rnd binary64 (d1 * 2) = Fin d2 \<and> 0 \<le> d2 \<and> d2 \<le> of_int 2"
    unfolding d2_def using 1 by (intro rnd64_unsigned) simp_all
  have 3: "rnd binary64 (d2 + - 1) = Fin d3 \<and> - of_int 1 \<le> d3 \<and> d3 \<le> of_int 1"
    unfolding d3_def using 2 by (intro rnd64_signed) simp_all
  have 4: "rnd binary32 d3 = Fin s \<and> - of_int 1 \<le> s \<and> s \<le> of_int 1"
    unfolding s_def using 3 by (intro rnd32_signed) simp_all
  have a1: "\<bar>d\<bar> < 2 powi (1 + 1)"
    using assms by (simp add: abs_less_iff)
  have a2: "\<bar>d1 * 2\<bar> < 2 powi (1 + 1)"
    using 1 by (simp add: abs_less_iff)
  have a3: "\<bar>d2 + - 1\<bar> < 2 powi (1 + 1)"
    using 2 by (simp add: abs_less_iff)
  have a4: "\<bar>d3\<bar> < 2 powi (0 + 1)"
    using 3 by (simp add: abs_less_iff)
  have e1: "\<bar>d1 - d\<bar> \<le> 2 powi (1 - int (prec binary64))"
    unfolding d1_def using a1 by (rule round_fin_error) simp
  have e2: "\<bar>d2 - d1 * 2\<bar> \<le> 2 powi (1 - int (prec binary64))"
    unfolding d2_def using a2 by (rule round_fin_error) simp
  have e3: "\<bar>d3 - (d2 + - 1)\<bar> \<le> 2 powi (1 - int (prec binary64))"
    unfolding d3_def using a3 by (rule round_fin_error) simp
  have e4: "\<bar>s - d3\<bar> \<le> 2 powi (0 - int (prec binary32))"
    unfolding s_def using a4 by (rule round_fin_error) simp
  have "\<bar>s - (2 * d - 1)\<bar> \<le> 2 powi (0 - int (prec binary32)) + 4 * 2 powi (1 - int (prec binary64))"
    using e1 e2 e3 e4 by linarith
  also have "\<dots> \<le> 2 powi (- 22)"
    by simp
  finally have err: "\<bar>s - (2 * d - 1)\<bar> \<le> 2 powi (- 22)" .
  have "map_sfnorm (Fin d) = Fin s"
    using 1 2 3 4 by (simp add: map_sfnorm_def fsub_def round64_one)
  then show ?thesis
    using 4 err by simp
qed

section \<open>The range of the unpacked x and y\<close>

lemma unpack_x: "vx (unpack p) = map_sfnorm (fdiv binary32 (of_uint32 (drop_bit 16 p)) (Fin 65535))"
  by (simp add: unpack_def Let_def)

lemma unpack_y:
  "vy (unpack p) = map_sfnorm (fdiv binary32 (of_uint32 (drop_bit 1 (p AND 0x0000FFFF))) (Fin 32767))"
  by (simp add: unpack_def Let_def)

lemma unpack_x_exact:
  "vx (unpack p) = map_sfnorm (fdiv binary32 (Fin (of_int (uint p div 65536))) (Fin 65535))"
proof -
  have "uint (drop_bit 16 p) < 2 ^ 24"
    unfolding uint_high_field using high_field_range [of p] by simp
  then have "of_uint32 (drop_bit 16 p) = Fin (of_int (uint (drop_bit 16 p)))"
    by (rule of_uint32_exact)
  then show ?thesis
    by (simp only: unpack_x uint_high_field)
qed

lemma unpack_y_exact:
  "vy (unpack p) = map_sfnorm (fdiv binary32 (Fin (of_int (uint p mod 65536 div 2))) (Fin 32767))"
proof -
  have "uint (drop_bit 1 (p AND 0x0000FFFF)) < 2 ^ 24"
    unfolding uint_mid_field using mid_field_range [of p] by simp
  then have "of_uint32 (drop_bit 1 (p AND 0x0000FFFF)) = Fin (of_int (uint (drop_bit 1 (p AND 0x0000FFFF))))"
    by (rule of_uint32_exact)
  then show ?thesis
    by (simp only: unpack_y uint_mid_field)
qed

lemma unpack_x_spec:
  "\<exists>a. vx (unpack p) = Fin a \<and> - 1 \<le> a \<and> a \<le> 1 \<and>
     \<bar>a - (2 * (of_int (uint p div 65536) / 65535) - 1)\<bar> \<le> 2 powi (- 21)"
proof -
  obtain d where d: "fdiv binary32 (Fin (of_int (uint p div 65536))) (Fin (of_int 65535)) = Fin d"
      "0 \<le> d" "d \<le> 1" "\<bar>d - of_int (uint p div 65536) / of_int 65535\<bar> \<le> 2 powi (- 24)"
    using dequantize_range [of "uint p div 65536" 65535] high_field_range [of p] by auto
  obtain s where s: "map_sfnorm (Fin d) = Fin s" "- 1 \<le> s" "s \<le> 1" "\<bar>s - (2 * d - 1)\<bar> \<le> 2 powi (- 22)"
    using map_sfnorm_spec [OF d(2,3)] by blast
  define c :: rat where "c = of_int (uint p div 65536) / 65535"
  have dc: "\<bar>d - c\<bar> \<le> 2 powi (- 24)"
    using d(4) by (simp add: c_def)
  have "\<bar>s - (2 * c - 1)\<bar> \<le> 2 powi (- 22) + 2 * 2 powi (- 24)"
    using dc s(4) by linarith
  also have "\<dots> \<le> 2 powi (- 21)"
    by simp
  finally have "\<bar>s - (2 * (of_int (uint p div 65536) / 65535) - 1)\<bar> \<le> 2 powi (- 21)"
    by (simp only: c_def)
  then show ?thesis
    using d(1) s(1-3) by (simp add: unpack_x_exact)
qed

lemma unpack_y_spec:
  "\<exists>b. vy (unpack p) = Fin b \<and> - 1 \<le> b \<and> b \<le> 1 \<and>
     \<bar>b - (2 * (of_int (uint p mod 65536 div 2) / 32767) - 1)\<bar> \<le> 2 powi (- 21)"
proof -
  obtain d where d: "fdiv binary32 (Fin (of_int (uint p mod 65536 div 2))) (Fin (of_int 32767)) = Fin d"
      "0 \<le> d" "d \<le> 1" "\<bar>d - of_int (uint p mod 65536 div 2) / of_int 32767\<bar> \<le> 2 powi (- 24)"
    using dequantize_range [of "uint p mod 65536 div 2" 32767] mid_field_range [of p] by auto
  obtain s where s: "map_sfnorm (Fin d) = Fin s" "- 1 \<le> s" "s \<le> 1" "\<bar>s - (2 * d - 1)\<bar> \<le> 2 powi (- 22)"
    using map_sfnorm_spec [OF d(2,3)] by blast
  define c :: rat where "c = of_int (uint p mod 65536 div 2) / 32767"
  have dc: "\<bar>d - c\<bar> \<le> 2 powi (- 24)"
    using d(4) by (simp add: c_def)
  have "\<bar>s - (2 * c - 1)\<bar> \<le> 2 powi (- 22) + 2 * 2 powi (- 24)"
    using dc s(4) by linarith
  also have "\<dots> \<le> 2 powi (- 21)"
    by simp
  finally have "\<bar>s - (2 * (of_int (uint p mod 65536 div 2) / 32767) - 1)\<bar> \<le> 2 powi (- 21)"
    by (simp only: c_def)
  then show ?thesis
    using d(1) s(1-3) by (simp add: unpack_y_exact)
qed

text \<open>
  C10: for every 32-bit word p, the x and y components of unpack(p) are finite and lie in
  [-1, 1]: the fields are at most 65535 and 32767, the quotients round into [0, 1], and
  map_sfnorm takes [0, 1] into [-1, 1].
\<close>

theorem unpack_xy_range:
  "\<exists>a b. vx (unpack p) = Fin a \<and> - 1 \<le> a \<and> a \<le> 1 \<and>
         vy (unpack p) = Fin b \<and> - 1 \<le> b \<and> b \<le> 1"
  using unpack_x_spec [of p] unpack_y_spec [of p] by blast

lemma isqrt_spec:
  "0 \<le> n \<Longrightarrow> 0 \<le> isqrt n \<and> isqrt n * isqrt n \<le> n \<and> n < (isqrt n + 1) * (isqrt n + 1)"
proof (induction n rule: isqrt.induct)
  case (1 n)
  show ?case
  proof (cases "n < 4")
    case True
    then show ?thesis
      using 1(2) by (subst (1 2 3 4 5) isqrt.simps) auto
  next
    case False
    define r0 where "r0 = isqrt (n div 4)"
    have ih: "0 \<le> r0 \<and> r0 * r0 \<le> n div 4 \<and> n div 4 < (r0 + 1) * (r0 + 1)"
      unfolding r0_def using False 1(2) by (intro 1(1)) simp_all
    have lo: "(2 * r0) * (2 * r0) \<le> n"
    proof -
      have "(2 * r0) * (2 * r0) = 4 * (r0 * r0)" by simp
      also have "\<dots> \<le> 4 * (n div 4)" using ih by simp
      also have "\<dots> \<le> n" by simp
      finally show ?thesis .
    qed
    have hi: "n < (2 * r0 + 2) * (2 * r0 + 2)"
    proof -
      have "n < 4 * (n div 4 + 1)" by simp
      also have "\<dots> \<le> 4 * ((r0 + 1) * (r0 + 1))" using ih by simp
      also have "\<dots> = (2 * r0 + 2) * (2 * r0 + 2)" by (simp add: algebra_simps)
      finally show ?thesis .
    qed
    have e: "isqrt n = (if (2 * r0 + 1) * (2 * r0 + 1) \<le> n then 2 * r0 + 1 else 2 * r0)"
      using False by (subst isqrt.simps) (simp add: Let_def r0_def)
    show ?thesis
    proof (cases "(2 * r0 + 1) * (2 * r0 + 1) \<le> n")
      case True
      then have "isqrt n = 2 * r0 + 1" using e by simp
      then show ?thesis using True hi ih by (simp add: algebra_simps)
    next
      case False
      then have "isqrt n = 2 * r0" using e by simp
      then show ?thesis using False lo ih by (simp add: algebra_simps)
    qed
  qed
qed

lemma square_le_imp_le:
  fixes s K :: int
  assumes "s * s \<le> K * K" and "0 \<le> K"
  shows "s \<le> K"
proof (rule ccontr)
  assume "\<not> s \<le> K"
  then have "K + 1 \<le> s" by simp
  then have "(K + 1) * (K + 1) \<le> s * s"
    using assms(2) by (intro mult_mono) simp_all
  then show False
    using assms by (simp add: algebra_simps)
qed

lemma rne_sqrt_nonneg: "0 \<le> r \<Longrightarrow> 0 \<le> rne_sqrt r"
  using isqrt_spec [of "\<lfloor>r\<rfloor>"] by (auto simp: rne_sqrt_def Let_def)

lemma rne_sqrt_le:
  assumes "0 \<le> r" and "r \<le> of_int (K * K)" and "0 \<le> K"
  shows "rne_sqrt r \<le> K"
proof -
  define s where "s = isqrt \<lfloor>r\<rfloor>"
  have sp: "0 \<le> s \<and> s * s \<le> \<lfloor>r\<rfloor> \<and> \<lfloor>r\<rfloor> < (s + 1) * (s + 1)"
    unfolding s_def using assms(1) by (intro isqrt_spec) simp
  have "\<lfloor>r\<rfloor> \<le> K * K"
    using assms(2) by (simp add: floor_le_iff del: of_int_mult) 
  then have "s * s \<le> K * K"
    using sp by simp
  then have sK: "s \<le> K"
    using assms(3) by (rule square_le_imp_le)
  show ?thesis
  proof (cases "s = K")
    case True
    have "r \<le> of_int s * of_int s"
      using assms(2) True by simp
    also have "\<dots> < (of_int s + 1 / 2) * (of_int s + 1 / 2)"
      using sp by (simp add: algebra_simps)
    finally show ?thesis
      using True by (simp add: rne_sqrt_def Let_def s_def)
  next
    case False
    then have "s + 1 \<le> K" using sK by simp
    then show ?thesis
      using sK by (auto simp: rne_sqrt_def Let_def s_def)
  qed
qed

lemma sqrt_fin_nonneg: "0 \<le> q \<Longrightarrow> 0 \<le> sqrt_fin F q"
  by (simp add: sqrt_fin_def Let_def rne_sqrt_nonneg)

lemma sqrt_fin_grid:
  assumes "0 < sqrt_fin F q" and "0 \<le> q"
  shows "2 powi qmin F \<le> sqrt_fin F q"
proof -
  define e where "e = max (ilog2 q div 2 - (int (prec F) - 1)) (qmin F)"
  define k where "k = rne_sqrt (q / 2 powi (2 * e))"
  have ne: "q \<noteq> 0"
    using assms(1) by (auto simp: sqrt_fin_def)
  then have v: "sqrt_fin F q = of_int k * 2 powi e"
    by (simp add: sqrt_fin_def Let_def e_def k_def)
  have "0 < (of_int k :: rat) * 2 powi e"
    using assms(1) v by simp
  moreover have "(0::rat) < 2 powi e"
    by simp
  ultimately have "0 < (of_int k :: rat)"
    by (rule zero_less_mult_pos2)
  then have "1 \<le> k"
    by simp
  then have "(1::rat) \<le> of_int k"
    by simp
  then have "1 * 2 powi e \<le> of_int k * (2::rat) powi e"
    by (rule mult_right_mono) simp
  then have a: "2 powi e \<le> of_int k * (2::rat) powi e"
    by (simp only: mult_1)
  have "(2::rat) powi qmin F \<le> 2 powi e"
    by (intro power_int_increasing) (simp_all add: e_def)
  then have "2 powi qmin F \<le> of_int k * (2::rat) powi e"
    using a by (rule order_trans)
  then show ?thesis
    by (simp only: v)
qed

lemma sqrt_fin_le_one:
  assumes "0 \<le> q" and "q \<le> 1" and "qmin F \<le> 0" and "0 < prec F"
  shows "sqrt_fin F q \<le> 1"
proof (cases "q = 0")
  case True
  then show ?thesis by (simp add: sqrt_fin_def)
next
  case False
  then have pos: "0 < q" using assms(1) by simp
  define e where "e = max (ilog2 q div 2 - (int (prec F) - 1)) (qmin F)"
  have "q < 2 powi (0 + 1)"
    using assms(2) by simp
  then have "ilog2 q \<le> 0"
    using pos by (intro ilog2_le) 
  then have "ilog2 q div 2 \<le> 0"
    by simp
  then have e0: "e \<le> 0"
    using assms(3,4) by (simp add: e_def)
  define K :: int where "K = 2 ^ nat (- e)"
  have Kp: "(of_int K :: rat) = 2 powi (- e)"
    using e0 by (simp add: K_def power_int_nonneg_exp)
  have "q / 2 powi (2 * e) \<le> 1 / 2 powi (2 * e)"
    using assms(2) by (intro divide_right_mono) simp_all
  also have "\<dots> = 2 powi (- e) * 2 powi (- e)"
    by (simp add: power_int_minus_divide flip: power_int_add)
  also have "\<dots> = of_int (K * K)"
    using Kp by simp
  finally have "rne_sqrt (q / 2 powi (2 * e)) \<le> K"
    using pos by (intro rne_sqrt_le) (simp_all add: K_def)
  then have "(of_int (rne_sqrt (q / 2 powi (2 * e))) :: rat) \<le> of_int K"
    by (simp only: of_int_le_iff)
  then have "of_int (rne_sqrt (q / 2 powi (2 * e))) * 2 powi e \<le> of_int K * (2::rat) powi e"
    by (rule mult_right_mono) simp
  also have "\<dots> = 1"
    unfolding Kp by (simp flip: power_int_add)
  finally show ?thesis
    using False by (simp add: sqrt_fin_def Let_def e_def)
qed

lemma unpack_z:
  "vz (unpack p) = fmul binary32 (fsqrt binary32 (unpack_radicand p))
     (if p AND 0x01 = 1 then Fin (- 1) else Fin 1)"
  by (simp add: unpack_def unpack_radicand_def Let_def)

lemma sign_bit_test:
  fixes p :: "32 word"
  shows "(p AND 0x01 = 1) = bit p 0"
  by (simp add: and_one_eq bit_0 odd_iff_mod_2_eq_one)

lemma square_range:
  fixes a :: rat
  assumes "- 1 \<le> a" and "a \<le> 1"
  shows "0 \<le> a * a \<and> a * a \<le> 1"
proof -
  have "\<bar>a\<bar> \<le> 1" using assms by (simp add: abs_le_iff)
  then have "\<bar>a\<bar> * \<bar>a\<bar> \<le> 1 * 1"
    by (intro mult_mono) simp_all
  then show ?thesis by (simp add: flip: abs_mult)
qed

lemma grid_gap:
  fixes K :: int
  assumes "1 < of_int K * (2::rat) powi (- 149)"
  shows "2 powi (- 149) \<le> of_int K * (2::rat) powi (- 149) - 1"
proof -
  have one: "(1::rat) = of_int (2 ^ 149) * 2 powi (- 149)"
    by (simp add: power_int_minus)
  have c: "(0::rat) < 2 powi (- 149)"
    by simp
  have "of_int (2 ^ 149) * (2::rat) powi (- 149) < of_int K * 2 powi (- 149)"
    using assms by (simp only: one [symmetric])
  then have "(of_int (2 ^ 149) :: rat) < of_int K"
    by (simp only: mult_less_cancel_right_pos [OF c])
  then have "2 ^ 149 < K"
    by (simp only: of_int_less_iff)
  then have "2 ^ 149 + 1 \<le> K"
    by simp
  then have "(of_int (2 ^ 149 + 1) :: rat) \<le> of_int K"
    by (simp only: of_int_le_iff)
  then have "of_int (2 ^ 149 + 1) * (2::rat) powi (- 149) \<le> of_int K * 2 powi (- 149)"
    by (rule mult_right_mono) simp
  moreover have "of_int (2 ^ 149 + 1) * (2::rat) powi (- 149) = 1 + 2 powi (- 149)"
    by (simp add: power_int_minus algebra_simps)
  ultimately show ?thesis
    by simp
qed

lemma radicand_spec:
  "\<exists>r s. unpack_radicand p = Fin r \<and> - 1 \<le> r \<and> r \<le> 1 \<and>
     fadd binary32 (fmul binary32 (vx (unpack p)) (vx (unpack p)))
       (fmul binary32 (vy (unpack p)) (vy (unpack p))) = Fin s \<and> (r < 0) = (1 < s)"
proof -
  obtain a b where ab: "vx (unpack p) = Fin a" "- 1 \<le> a" "a \<le> 1"
      "vy (unpack p) = Fin b" "- 1 \<le> b" "b \<le> 1"
    using unpack_x_spec [of p] unpack_y_spec [of p] by blast
  define ra where "ra = round_fin binary32 (a * a)"
  define rb where "rb = round_fin binary32 (b * b)"
  define s where "s = round_fin binary32 (ra + rb)"
  define r where "r = round_fin binary32 (1 + - s)"
  have 1: "rnd binary32 (a * a) = Fin ra \<and> 0 \<le> ra \<and> ra \<le> of_int 1"
    unfolding ra_def using square_range [OF ab(2,3)] by (intro rnd32_unsigned) simp_all
  have 2: "rnd binary32 (b * b) = Fin rb \<and> 0 \<le> rb \<and> rb \<le> of_int 1"
    unfolding rb_def using square_range [OF ab(5,6)] by (intro rnd32_unsigned) simp_all
  have 3: "rnd binary32 (ra + rb) = Fin s \<and> 0 \<le> s \<and> s \<le> of_int 2"
    unfolding s_def using 1 2 by (intro rnd32_unsigned) simp_all
  have 4: "rnd binary32 (1 + - s) = Fin r \<and> - of_int 1 \<le> r \<and> r \<le> of_int 1"
    unfolding r_def using 3 by (intro rnd32_signed) simp_all
  have sum: "fadd binary32 (fmul binary32 (vx (unpack p)) (vx (unpack p)))
       (fmul binary32 (vy (unpack p)) (vy (unpack p))) = Fin s"
    using 1 2 3 by (simp add: ab(1,4))
  have rad: "unpack_radicand p = Fin r"
    using 4 by (simp add: unpack_radicand_def sum fsub_def)
  have sign: "(r < 0) = (1 < s)"
  proof (cases "1 < s")
    case True
    obtain K where K: "s = of_int K * 2 powi qmin binary32"
      unfolding s_def using round_fin_grid by blast
    have "2 powi (- 149) \<le> of_int K * (2::rat) powi (- 149) - 1"
      using True K by (intro grid_gap) simp
    then have "2 powi qmin binary32 \<le> s - 1"
      using K by simp
    then have "2 powi qmin binary32 \<le> round_fin binary32 (s - 1)"
      by (rule round_fin_pos) simp
    moreover have "r = - round_fin binary32 (s - 1)"
      using round_fin_minus [of binary32 "s - 1"] by (simp add: r_def)
    moreover have "(0::rat) < 2 powi qmin binary32"
      by simp
    ultimately have "r < 0"
      by linarith
    then show ?thesis
      using True by simp
  next
    case False
    then have "0 \<le> 1 + - s" by simp
    then have "0 \<le> r"
      unfolding r_def by (rule round_fin_nonneg)
    then show ?thesis
      using False by simp
  qed
  show ?thesis
    using rad sum sign 4 by simp
qed

lemma magnitude_spec:
  assumes "unpack_radicand p = Fin r" and "0 \<le> r" and "r \<le> 1"
  shows "\<exists>m. fsqrt binary32 (unpack_radicand p) = Fin m \<and> 0 \<le> m \<and> m \<le> 1 \<and>
           (0 < m \<longrightarrow> 2 powi qmin binary32 \<le> m)"
proof -
  have "sqrt_fin binary32 r \<le> 1"
    using assms(2,3) by (rule sqrt_fin_le_one) simp_all
  moreover have "0 \<le> sqrt_fin binary32 r"
    using assms(2) by (rule sqrt_fin_nonneg)
  moreover have "0 < sqrt_fin binary32 r \<longrightarrow> 2 powi qmin binary32 \<le> sqrt_fin binary32 r"
  proof
    assume "0 < sqrt_fin binary32 r"
    then show "2 powi qmin binary32 \<le> sqrt_fin binary32 r"
      using assms(2) by (rule sqrt_fin_grid)
  qed
  moreover have "fsqrt binary32 (unpack_radicand p) = Fin (sqrt_fin binary32 r)"
    using assms(1,2) by simp
  ultimately show ?thesis
    by blast
qed

lemma signed_magnitude:
  assumes "0 \<le> m" and "m \<le> 1"
  shows "\<exists>z. fmul binary32 (Fin m) (Fin 1) = Fin z \<and> 0 \<le> z \<and> z \<le> 1 \<and>
           (2 powi qmin binary32 \<le> m \<longrightarrow> 0 < z)"
    and "\<exists>z. fmul binary32 (Fin m) (Fin (- 1)) = Fin z \<and> - 1 \<le> z \<and> z \<le> 0 \<and>
           (2 powi qmin binary32 \<le> m \<longrightarrow> z < 0)"
proof -
  have p: "rnd binary32 m = Fin (round_fin binary32 m) \<and> 0 \<le> round_fin binary32 m \<and>
      round_fin binary32 m \<le> of_int 1"
    using assms by (intro rnd32_unsigned) simp_all
  have pos: "0 < round_fin binary32 m" if "2 powi qmin binary32 \<le> m"
  proof -
    have "2 powi qmin binary32 \<le> round_fin binary32 m"
      using that by (rule round_fin_pos) simp
    moreover have "(0::rat) < 2 powi qmin binary32"
      by simp
    ultimately show ?thesis
      by (rule less_le_trans [rotated])
  qed
  show "\<exists>z. fmul binary32 (Fin m) (Fin 1) = Fin z \<and> 0 \<le> z \<and> z \<le> 1 \<and>
           (2 powi qmin binary32 \<le> m \<longrightarrow> 0 < z)"
    using p pos by simp
  have n: "rnd binary32 (- m) = Fin (round_fin binary32 (- m)) \<and> - of_int 1 \<le> round_fin binary32 (- m) \<and>
      round_fin binary32 (- m) \<le> of_int 1"
    using assms by (intro rnd32_signed) simp_all
  have "round_fin binary32 (- m) = - round_fin binary32 m"
    by (rule round_fin_minus)
  then show "\<exists>z. fmul binary32 (Fin m) (Fin (- 1)) = Fin z \<and> - 1 \<le> z \<and> z \<le> 0 \<and>
           (2 powi qmin binary32 \<le> m \<longrightarrow> z < 0)"
    using n p pos by simp
qed

lemmas sqrt_defs = sqrt_fin_def rne_sqrt_def isqrt.simps

section \<open>What unpack returns\<close>

text \<open>
  C4: for every 32-bit p, the x component of unpack(p) is map_sfnorm of the binary32
  quotient (p >> 16) / 65535.0f and the y component is map_sfnorm of
  ((p & 0xFFFF) >> 1) / 32767.0f, the two fields being converted to float exactly; and
  whenever the reconstructed magnitude glm::sqrt(...) is a nonzero number, the z component
  is a nonzero number that is negative exactly when bit 0 of p is set.
\<close>

theorem unpack_fields:
  "vx (unpack p) = map_sfnorm (fdiv binary32 (Fin (of_int (uint p div 65536))) (Fin 65535)) \<and>
   vy (unpack p) = map_sfnorm (fdiv binary32 (Fin (of_int (uint p mod 65536 div 2))) (Fin 32767)) \<and>
   (\<forall>m. fsqrt binary32 (unpack_radicand p) = Fin m \<and> m \<noteq> 0 \<longrightarrow>
      (\<exists>z. vz (unpack p) = Fin z \<and> z \<noteq> 0 \<and> (z < 0) = bit p 0))"
proof (intro conjI allI impI)
  show "vx (unpack p) = map_sfnorm (fdiv binary32 (Fin (of_int (uint p div 65536))) (Fin 65535))"
    by (rule unpack_x_exact)
  show "vy (unpack p) = map_sfnorm (fdiv binary32 (Fin (of_int (uint p mod 65536 div 2))) (Fin 32767))"
    by (rule unpack_y_exact)
next
  fix m
  assume a: "fsqrt binary32 (unpack_radicand p) = Fin m \<and> m \<noteq> 0"
  obtain r where r: "unpack_radicand p = Fin r" "- 1 \<le> r" "r \<le> 1"
    using radicand_spec [of p] by blast
  have r0: "0 \<le> r"
    using a r(1) by (cases "r < 0") simp_all
  obtain m' where m': "fsqrt binary32 (unpack_radicand p) = Fin m'" "0 \<le> m'" "m' \<le> 1"
      "0 < m' \<longrightarrow> 2 powi qmin binary32 \<le> m'"
    using magnitude_spec [OF r(1) r0 r(3)] by blast
  have mm: "m' = m"
    using a m'(1) by simp
  have big: "2 powi qmin binary32 \<le> m"
    using a m'(2,4) mm by simp
  have m01: "0 \<le> m" "m \<le> 1"
    using m'(2,3) mm by simp_all
  show "\<exists>z. vz (unpack p) = Fin z \<and> z \<noteq> 0 \<and> (z < 0) = bit p 0"
  proof (cases "bit p 0")
    case True
    obtain z where "fmul binary32 (Fin m) (Fin (- 1)) = Fin z" "z < 0"
      using signed_magnitude(2) [OF m01] big by blast
    then show ?thesis
      using True a by (simp add: unpack_z sign_bit_test)
  next
    case False
    obtain z where "fmul binary32 (Fin m) (Fin 1) = Fin z" "0 < z"
      using signed_magnitude(1) [OF m01] big by blast
    then show ?thesis
      using False a by (simp add: unpack_z sign_bit_test)
  qed
qed

lemma unpack_minus_z:
  "unpack 0x80008001 = \<lparr>vx = Fin (1 / 65536), vy = Fin (1 / 32768), vz = Fin (- 1)\<rparr>"
  by (simp add: unpack_def codec_defs round_defs ilog2.simps sqrt_defs)

lemma radicand_minus_z: "fsqrt binary32 (unpack_radicand 0x80008001) = Fin 1"
  by (simp add: unpack_radicand_def unpack_minus_z codec_defs round_defs ilog2.simps sqrt_defs)

theorem unpack_fields_witness:
  "fsqrt binary32 (unpack_radicand 0x80008001) = Fin 1 \<and> (1::rat) \<noteq> 0 \<and>
   (\<exists>z. vz (unpack 0x80008001) = Fin z \<and> z \<noteq> 0 \<and> (z < 0) = bit (0x80008001 :: 32 word) 0)"
  using unpack_fields [of "0x80008001"] radicand_minus_z by simp

lemma unpack_z_cases:
  "(\<exists>a. vx (unpack p) = Fin a) \<and> (\<exists>b. vy (unpack p) = Fin b) \<and>
   (if flt (Fin 1) (fadd binary32 (fmul binary32 (vx (unpack p)) (vx (unpack p)))
                      (fmul binary32 (vy (unpack p)) (vy (unpack p))))
    then vz (unpack p) = NaN
    else (\<exists>z. vz (unpack p) = Fin z \<and> - 1 \<le> z \<and> z \<le> 1))"
proof -
  obtain r s where rs: "unpack_radicand p = Fin r" "- 1 \<le> r" "r \<le> 1"
      "fadd binary32 (fmul binary32 (vx (unpack p)) (vx (unpack p)))
         (fmul binary32 (vy (unpack p)) (vy (unpack p))) = Fin s" "(r < 0) = (1 < s)"
    using radicand_spec [of p] by blast
  have z: "if 1 < s then vz (unpack p) = NaN else (\<exists>z. vz (unpack p) = Fin z \<and> - 1 \<le> z \<and> z \<le> 1)"
  proof (cases "1 < s")
    case True
    then have "r < 0" using rs(5) by simp
    then show ?thesis
      using True by (simp add: unpack_z rs(1))
  next
    case False
    then have r0: "0 \<le> r" using rs(5) by simp
    obtain m where m: "fsqrt binary32 (unpack_radicand p) = Fin m" "0 \<le> m" "m \<le> 1"
      using magnitude_spec [OF rs(1) r0 rs(3)] by blast
    obtain z1 where z1: "fmul binary32 (Fin m) (Fin 1) = Fin z1" "0 \<le> z1" "z1 \<le> 1"
      using signed_magnitude(1) [OF m(2,3)] by blast
    obtain z2 where z2: "fmul binary32 (Fin m) (Fin (- 1)) = Fin z2" "- 1 \<le> z2" "z2 \<le> 0"
      using signed_magnitude(2) [OF m(2,3)] by blast
    show ?thesis
      using False z1 z2 by (simp add: unpack_z m(1))
  qed
  show ?thesis
    using unpack_x_spec [of p] unpack_y_spec [of p] z by (auto simp: rs(4))
qed

text \<open>
  C2, as the code has it: unpack has no clamp.  For every 32-bit p the x and y components
  are finite, and whenever the binary32 sum fx*fx + fy*fy is not greater than 1 the z
  component is a finite number in [-1, 1] as well: no component is NaN.
\<close>

theorem unpack_defined:
  "(\<exists>a. vx (unpack p) = Fin a) \<and> (\<exists>b. vy (unpack p) = Fin b) \<and>
   (\<not> flt (Fin 1) (fadd binary32 (fmul binary32 (vx (unpack p)) (vx (unpack p)))
                        (fmul binary32 (vy (unpack p)) (vy (unpack p))))
    \<longrightarrow> (\<exists>z. vz (unpack p) = Fin z \<and> - 1 \<le> z \<and> z \<le> 1))"
  using unpack_z_cases [of p] by (simp split: if_splits)

lemma square_sum_minus_z:
  "fadd binary32 (fmul binary32 (vx (unpack 0x80008001)) (vx (unpack 0x80008001)))
     (fmul binary32 (vy (unpack 0x80008001)) (vy (unpack 0x80008001))) = Fin (5 / 4294967296)"
  by (simp add: unpack_minus_z round_defs ilog2.simps)

theorem unpack_defined_witness:
  "\<not> flt (Fin 1) (fadd binary32 (fmul binary32 (vx (unpack 0x80008001)) (vx (unpack 0x80008001)))
        (fmul binary32 (vy (unpack 0x80008001)) (vy (unpack 0x80008001)))) \<and>
   (\<exists>z. vz (unpack 0x80008001) = Fin z \<and> - 1 \<le> z \<and> z \<le> 1)"
  using unpack_defined [of "0x80008001"] by (simp add: square_sum_minus_z)

text \<open>
  Without that condition the claim fails: at p = 0xFFFFFFFE both fields are at their
  maximum, fx = fy = 1, the radicand is -1 and z is NaN.
\<close>

theorem unpack_nan_counterexample:
  "unpack 0xFFFFFFFE = \<lparr>vx = Fin 1, vy = Fin 1, vz = NaN\<rparr>"
  by (simp add: unpack_def codec_defs round_defs ilog2.simps sqrt_defs)

section \<open>The round trip\<close>

text \<open>
  C1 says that vector_equals(v, unpack(pack(v))) holds for every vector v of unit length.
  The code does not do that.  The vector (0.8f, 0.6f, 0.0f) has computed length 1.0f; pack
  gives 0xE666CCCC, whose fields decode to fx = 0.80001..., fy = 0.60002...; their squares
  sum to more than 1, the radicand is negative, z is NaN and vector_equals is false.
\<close>

theorem roundtrip_failing_input:
  "vec_length \<lparr>vx = Fin (13421773 / 16777216), vy = Fin (5033165 / 8388608), vz = Fin 0\<rparr> = Fin 1 \<and>
   pack \<lparr>vx = Fin (13421773 / 16777216), vy = Fin (5033165 / 8388608), vz = Fin 0\<rparr> = Some 0xE666CCCC \<and>
   unpack 0xE666CCCC = \<lparr>vx = Fin (3355507 / 4194304), vy = Fin (2516685 / 4194304), vz = NaN\<rparr> \<and>
   \<not> vector_equals \<lparr>vx = Fin (13421773 / 16777216), vy = Fin (5033165 / 8388608), vz = Fin 0\<rparr>
       (unpack 0xE666CCCC)"
proof (intro conjI)
  show "vec_length \<lparr>vx = Fin (13421773 / 16777216), vy = Fin (5033165 / 8388608), vz = Fin 0\<rparr> = Fin 1"
    by (simp add: vec_length_def round_defs ilog2.simps sqrt_defs)
  show "pack \<lparr>vx = Fin (13421773 / 16777216), vy = Fin (5033165 / 8388608), vz = Fin 0\<rparr> = Some 0xE666CCCC"
    by (simp add: pack_def codec_defs round_defs ilog2.simps)
  show u: "unpack 0xE666CCCC = \<lparr>vx = Fin (3355507 / 4194304), vy = Fin (2516685 / 4194304), vz = NaN\<rparr>"
    by (simp add: unpack_def codec_defs round_defs ilog2.simps sqrt_defs)
  show "\<not> vector_equals \<lparr>vx = Fin (13421773 / 16777216), vy = Fin (5033165 / 8388608), vz = Fin 0\<rparr>
       (unpack 0xE666CCCC)"
    unfolding u by (simp add: vector_equals_def float_eq_def fsub_def)
qed

text \<open>
  A second vector of computed length 1.0f, (-0.29468..., 0.95559..., 0.0f), decodes
  without NaN and still fails: its z comes back as 0.00817..., further than 0.005f
  from 0.
\<close>

lemma roundtrip_failing_without_nan:
  "vec_length \<lparr>vx = Fin (- (9887867 / 33554432)), vy = Fin (16032233 / 16777216), vz = Fin 0\<rparr> = Fin 1 \<and>
   pack \<lparr>vx = Fin (- (9887867 / 33554432)), vy = Fin (16032233 / 16777216), vz = Fin 0\<rparr> = Some 0x5A48FA4E \<and>
   unpack 0x5A48FA4E =
     \<lparr>vx = Fin (- (4943691 / 16777216)), vy = Fin (8015861 / 8388608), vz = Fin (1096627 / 134217728)\<rparr> \<and>
   \<not> float_eq (Fin 0) (Fin (1096627 / 134217728))"
proof (intro conjI)
  show "vec_length \<lparr>vx = Fin (- (9887867 / 33554432)), vy = Fin (16032233 / 16777216), vz = Fin 0\<rparr> = Fin 1"
    by (simp add: vec_length_def round_defs ilog2.simps sqrt_defs)
  show "pack \<lparr>vx = Fin (- (9887867 / 33554432)), vy = Fin (16032233 / 16777216), vz = Fin 0\<rparr> = Some 0x5A48FA4E"
    by (simp add: pack_def codec_defs round_defs ilog2.simps)
  show "unpack 0x5A48FA4E =
     \<lparr>vx = Fin (- (4943691 / 16777216)), vy = Fin (8015861 / 8388608), vz = Fin (1096627 / 134217728)\<rparr>"
    by (simp add: unpack_def codec_defs round_defs ilog2.simps sqrt_defs)
  show "\<not> float_eq (Fin 0) (Fin (1096627 / 134217728))"
    by (simp add: float_eq_def fsub_def round_defs ilog2.simps)
qed

end
